theory Spec2Isabelle
  imports Main "HOL-Library.Word" "HOL-Library.Multiset"
begin

unbundle bit_operations_syntax

section \<open>The A/D converter driver of adc.cpp\<close>

subsection \<open>Registers and the converter hardware\<close>

type_synonym u8 = "8 word"
type_synonym u16 = "16 word"

text \<open>
  The driver talks to three memory-mapped registers of the converter: the control and
  status register \<open>ADCSRA\<close>, the multiplexer register \<open>ADMUX\<close> (both 8 bits wide) and the
  16-bit data register \<open>ADC\<close>. They are global to the program, so every function below
  takes the register file and returns it updated. The field \<open>hidden\<close> is whatever else
  the converter holds (the analog inputs, the progress of a conversion); the driver
  never looks at it.
\<close>

record 'h periph =
  ADCSRA :: u8
  ADMUX :: u8
  ADC :: u16
  hidden :: 'h

text \<open>
  The converter runs beside the processor. One step of it, taken between two polls of
  the busy-wait loop, yields a new control register, a new data register and a new
  hidden state. The multiplexer register is written by software only, so a step cannot
  change it.
\<close>

type_synonym 'h hardware = "'h periph \<Rightarrow> u8 \<times> u16 \<times> 'h"

definition advance :: "'h hardware \<Rightarrow> 'h periph \<Rightarrow> 'h periph" where
  "advance hw s = (case hw s of (a, d, h) \<Rightarrow> s\<lparr>ADCSRA := a, ADC := d, hidden := h\<rparr>)"

text \<open>
  The bit numbers \<open>ADEN\<close>, \<open>ADSC\<close>, \<open>ADPS0\<close>, \<open>ADPS1\<close>, \<open>ADPS2\<close>, \<open>REFS0\<close> and
  \<open>REFS1\<close> come from the toolchain header \<open>avr/io.h\<close>, which adc.cpp includes and
  which is not part of the driver. They are a parameter of the model.
\<close>

record io_bits =
  ADEN :: nat
  ADSC :: nat
  ADPS0 :: nat
  ADPS1 :: nat
  ADPS2 :: nat
  REFS0 :: nat
  REFS1 :: nat

text \<open>
  The constructor needs a layout in which the bits it writes are bits of an 8-bit
  register and the bits it writes in one register differ from each other.
\<close>

definition layout_ok :: "io_bits \<Rightarrow> bool" where
  "layout_ok io \<longleftrightarrow>
     ADEN io < 8 \<and> ADPS0 io < 8 \<and> ADPS1 io < 8 \<and> ADPS2 io < 8 \<and>
     REFS0 io < 8 \<and> REFS1 io < 8 \<and>
     distinct [ADEN io, ADPS0 io, ADPS1 io, ADPS2 io] \<and>
     REFS0 io \<noteq> REFS1 io"

text \<open>The layout of the ATmega parts the driver was written for.\<close>

definition atmega :: io_bits where
  "atmega = \<lparr>ADEN = 7, ADSC = 6, ADPS0 = 0, ADPS1 = 1, ADPS2 = 2, REFS0 = 6, REFS1 = 7\<rparr>"

subsection \<open>The serial port\<close>

text \<open>
  Modelled from the spec: the stream class \<open>emstream\<close>, its \<open><<\<close> operators, the
  macro \<open>PMS\<close> and \<open>endl\<close> are declared outside adc.cpp; the sink is "a write-only
  text sink accepting labeled numeric values and line terminators". A stream is the list
  of the items written to it so far, oldest first: a string kept in program memory, an
  8-bit number, a 16-bit number or a line end. How the library renders a number is not
  modelled.
\<close>

datatype item = PMS string | U8 u8 | U16 u16 | Endl

type_synonym emstream = "item list"

text \<open>
  Modelled from the spec: the macro \<open>DBG\<close> is declared outside adc.cpp; the
  constructor "emits one diagnostic line to the sink confirming successful setup".
\<close>

definition DBG :: "emstream \<Rightarrow> item list \<Rightarrow> emstream" where
  "DBG ptr_to_serial stuff = ptr_to_serial @ stuff"

subsection \<open>The constructor\<close>

text \<open>
  \<open>adc::adc\<close>. The object keeps only the pointer to the serial port, which no method
  reads again, so the model passes the stream in and hands it back with the message
  appended. In \<open>ADCSRA &= ~(1<<ADPS1)\<close> the complement is taken on an \<open>int\<close>
  and the result is cut back to eight bits, which is the complement on eight bits.
\<close>

definition adc :: "io_bits \<Rightarrow> emstream \<Rightarrow> 'h periph \<Rightarrow> emstream \<times> 'h periph" where
  "adc io p_serial_port s =
     (let ptr_to_serial = p_serial_port;
          s = s\<lparr>ADCSRA := ADCSRA s OR push_bit (ADEN io) 1\<rparr>;
          s = s\<lparr>ADCSRA := ADCSRA s OR push_bit (ADPS0 io) 1\<rparr>;
          s = s\<lparr>ADCSRA := ADCSRA s AND NOT (push_bit (ADPS1 io) 1)\<rparr>;
          s = s\<lparr>ADCSRA := ADCSRA s OR push_bit (ADPS2 io) 1\<rparr>;
          s = s\<lparr>ADMUX := ADMUX s OR push_bit (REFS0 io) 1\<rparr>;
          s = s\<lparr>ADMUX := ADMUX s AND NOT (push_bit (REFS1 io) 1)\<rparr>
      in (DBG ptr_to_serial [PMS ''A/D constructor OK'', Endl], s))"

subsection \<open>A single conversion\<close>

text \<open>
  The loop \<open>while(ADCSRA & 0b01000000);\<close> polls bit 6 of the control register and
  ends when the hardware has cleared it. The hardware takes one step between two
  polls. Nothing bounds the number of polls, so the loop is a partial function: \<open>None\<close>
  is the loop that never ends.
\<close>

partial_function (option) spin :: "'h hardware \<Rightarrow> 'h periph \<Rightarrow> 'h periph option" where
  "spin hw s = (if ADCSRA s AND 0x40 \<noteq> 0 then spin hw (advance hw s) else Some s)"

text \<open>\<open>adc::read_once\<close>: the reading and the registers it leaves behind.\<close>

definition read_once ::
  "'h hardware \<Rightarrow> io_bits \<Rightarrow> u8 \<Rightarrow> 'h periph \<Rightarrow> (u16 \<times> 'h periph) option" where
  "read_once hw io ch s =
     (let result = (0 :: u16);
          ch = ch AND 0x07;
          s = s\<lparr>ADMUX := ADMUX s AND 0xF8\<rparr>;
          s = s\<lparr>ADMUX := ADMUX s OR ch\<rparr>;
          s = s\<lparr>ADCSRA := ADCSRA s OR push_bit (ADSC io) 1\<rparr>
      in case spin hw s of
           None \<Rightarrow> None
         | Some s \<Rightarrow> (let result = ADC s in Some (result, s)))"

subsection \<open>An averaged reading\<close>

datatype error = DivisionByZero

text \<open>
  The loop \<open>for(int i = 0; i < samples; samples--)\<close> never changes \<open>i\<close>: it compares
  the 8-bit counter \<open>samples\<close>, promoted to \<open>int\<close>, against 0 and counts it down. The
  sum is kept in the 16-bit \<open>result\<close>, where addition wraps around.
\<close>

function sample_loop ::
  "'h hardware \<Rightarrow> io_bits \<Rightarrow> u8 \<Rightarrow> u8 \<Rightarrow> u16 \<Rightarrow> 'h periph \<Rightarrow> (u16 \<times> 'h periph) option" where
  "sample_loop hw io channel samples result s =
     (if (0 :: int) < uint samples
      then (case read_once hw io channel s of
              None \<Rightarrow> None
            | Some (r, s') \<Rightarrow> sample_loop hw io channel (samples - 1) (result + r) s')
      else Some (result, s))"
  by pat_completeness auto
termination
proof (relation "measure (\<lambda>(hw, io, channel, samples, result, s). unat samples)")
  fix samples :: u8
  assume "0 < uint samples"
  then have "samples \<noteq> 0" by auto
  then have "unat (samples - 1) < unat samples"
    by (simp add: unat_minus_one unat_gt_0)
  then show "((hw, io, channel, samples - 1, result + r, s'), hw, io, channel, samples, result, s)
      \<in> measure (\<lambda>(hw, io, channel, samples, result, s). unat samples)"
    for hw :: "'h hardware" and io :: io_bits and channel :: u8 and result r :: u16
      and s s' :: "'h periph"
    by simp
qed simp

declare sample_loop.simps [simp del]

text \<open>
  \<open>adc::read_oversampled\<close>. The quotient \<open>result/temp_samples\<close> is an unsigned 16-bit
  division; C leaves a division by zero undefined, which is the error value here.
\<close>

definition read_oversampled ::
  "'h hardware \<Rightarrow> io_bits \<Rightarrow> u8 \<Rightarrow> u8 \<Rightarrow> 'h periph \<Rightarrow> (error + u16 \<times> 'h periph) option" where
  "read_oversampled hw io channel samples s =
     (let result = (0 :: u16);
          temp_samples = (0 :: u8);
          samples = (if samples \<ge> 64 then 60 else samples);
          temp_samples = samples
      in case sample_loop hw io channel samples result s of
           None \<Rightarrow> None
         | Some (result, s) \<Rightarrow>
             if temp_samples = 0 then Some (Inl DivisionByZero)
             else Some (Inr (result div ucast temp_samples, s)))"

subsection \<open>Printing the converter\<close>

text \<open>
  \<open>operator <<\<close> for a stream and a driver is one statement, a chain of \<open><<\<close> calls.
  Each line of the statement writes a label, an operand and the line end; the operand
  is a register or the result of a conversion. The chain, line by line, with the label
  and the operand of each line:
\<close>

datatype operand = Reg_ADCSRA | Reg_ADMUX | Read_once u8

definition chain :: "(string \<times> operand) list" where
  "chain =
     [(''ADCSRA: '', Reg_ADCSRA),
      (''ADMUX: '', Reg_ADMUX),
      (''ADC0 = '', Read_once 0),
      (''ADC1 = '', Read_once 1),
      (''ADC2 = '', Read_once 2),
      (''ADC3 = '', Read_once 3),
      (''ADC4 = '', Read_once 4),
      (''ADC5 = '', Read_once 5),
      (''ADC6 = '', Read_once 6),
      (''ADC7 = '', Read_once 7)]"

text \<open>
  Evaluating an operand reads a register or runs a conversion, which changes the
  registers and may never end.
\<close>

fun eval_operand ::
  "'h hardware \<Rightarrow> io_bits \<Rightarrow> operand \<Rightarrow> 'h periph \<Rightarrow> (item \<times> 'h periph) option" where
  "eval_operand hw io Reg_ADCSRA s = Some (U8 (ADCSRA s), s)"
| "eval_operand hw io Reg_ADMUX s = Some (U8 (ADMUX s), s)"
| "eval_operand hw io (Read_once ch) s =
     (case read_once hw io ch s of
        None \<Rightarrow> None
      | Some (r, s') \<Rightarrow> Some (U16 r, s'))"

text \<open>
  The calls of the chain write to the stream in the order of the chain. The order in
  which the operands are evaluated is another matter: the language fixes it, from left
  to right, only from C++17 on, and before that a compiler may take the operands of one
  statement in any order. So the order is a parameter of the model: \<open>order\<close> lists the
  lines of the chain, numbered from 0, in the order in which their operands are
  evaluated. \<open>eval_operands\<close> evaluates them in that order and keeps each value with
  the number of its line.
\<close>

fun eval_operands ::
  "'h hardware \<Rightarrow> io_bits \<Rightarrow> nat list \<Rightarrow> 'h periph \<Rightarrow> ((nat \<times> item) list \<times> 'h periph) option" where
  "eval_operands hw io [] s = Some ([], s)"
| "eval_operands hw io (i # order) s =
     (case eval_operand hw io (snd (chain ! i)) s of
        None \<Rightarrow> None
      | Some (v, s') \<Rightarrow>
          (case eval_operands hw io order s' of
             None \<Rightarrow> None
           | Some (vs, s'') \<Rightarrow> Some ((i, v) # vs, s'')))"

text \<open>
  An order of evaluation takes every line of the chain once. Every statement about
  \<open>print_adc\<close> below assumes such an order: for a list that names a line twice, leaves
  one out or names a line the chain does not have, the definitions say nothing about
  the program.
\<close>

definition valid_order :: "nat list \<Rightarrow> bool" where
  "valid_order order \<longleftrightarrow> sort order = [0..<length chain]"

text \<open>
  Writing to the stream does not touch the converter and the converter does not touch
  the stream, so the writes can be taken together, after the operands: every line is
  its label, the value of its operand and the line end.
\<close>

definition write_chain :: "emstream \<Rightarrow> (nat \<times> item) list \<Rightarrow> emstream" where
  "write_chain serpt vs =
     serpt @ concat (map (\<lambda>i. [PMS (fst (chain ! i)), the (map_of vs i), Endl])
                         [0..<length chain])"

definition print_adc ::
  "'h hardware \<Rightarrow> io_bits \<Rightarrow> nat list \<Rightarrow> emstream \<Rightarrow> 'h periph \<Rightarrow> (emstream \<times> 'h periph) option" where
  "print_adc hw io order serpt s =
     (case eval_operands hw io order s of
        None \<Rightarrow> None
      | Some (vs, s') \<Rightarrow> Some (write_chain serpt vs, s'))"

subsection \<open>Reference definitions\<close>

text \<open>
  The definitions of this section are not taken from adc.cpp. They say what the
  statements below compare the driver with.

  \<open>sweep hw io cs s\<close> is one \<open>read_once\<close> call for each channel of \<open>cs\<close>, in order,
  each starting from the registers the call before left: the readings, and the
  registers at the end. It is \<open>None\<close> when one of the calls never returns.
\<close>

fun sweep ::
  "'h hardware \<Rightarrow> io_bits \<Rightarrow> u8 list \<Rightarrow> 'h periph \<Rightarrow> (u16 list \<times> 'h periph) option" where
  "sweep hw io [] s = Some ([], s)"
| "sweep hw io (c # cs) s =
     (case read_once hw io c s of
        None \<Rightarrow> None
      | Some (r, s') \<Rightarrow>
          (case sweep hw io cs s' of
             None \<Rightarrow> None
           | Some (rs, s'') \<Rightarrow> Some (r # rs, s'')))"

text \<open>The sample count \<open>read_oversampled\<close> works with: 60 in place of 64 or more.\<close>

definition post_clamp :: "u8 \<Rightarrow> u8" where
  "post_clamp samples = (if 64 \<le> samples then 60 else samples)"

text \<open>
  The registers as \<open>read_once\<close> leaves them when it enters its busy-wait loop: the
  channel selected and the conversion started.
\<close>

definition conversion_started :: "io_bits \<Rightarrow> u8 \<Rightarrow> 'h periph \<Rightarrow> 'h periph" where
  "conversion_started io ch s =
     s\<lparr>ADMUX := (ADMUX s AND 0xF8) OR (ch AND 0x07),
       ADCSRA := ADCSRA s OR push_bit (ADSC io) 1\<rparr>"

text \<open>
  The channels converted when the operands of the printing chain are evaluated in a
  given order, in the order of the conversions.
\<close>

fun channel_of :: "operand \<Rightarrow> u8 list" where
  "channel_of (Read_once ch) = [ch]"
| "channel_of _ = []"

definition conversions :: "nat list \<Rightarrow> u8 list" where
  "conversions order = concat (map (\<lambda>i. channel_of (snd (chain ! i))) order)"

text \<open>
  The registers at the moment the operand of line \<open>i\<close> is evaluated: those left by the
  conversions that come before it in the order.
\<close>

definition registers_at ::
  "'h hardware \<Rightarrow> io_bits \<Rightarrow> nat list \<Rightarrow> nat \<Rightarrow> 'h periph \<Rightarrow> 'h periph option" where
  "registers_at hw io order i s =
     map_option snd (sweep hw io (conversions (takeWhile (\<lambda>j. j \<noteq> i) order)) s)"

text \<open>
  Three simulated converters. \<open>queue_hw\<close> finishes a conversion at every step with the
  next reading of a prepared list, and stops answering when the list is used up.
  \<open>echo_hw\<close> finishes a conversion at every step with the number of the selected
  channel as the reading. \<open>stuck_hw\<close> never does anything.
\<close>

definition queue_hw :: "(u16 list) hardware" where
  "queue_hw s =
     (case hidden s of
        [] \<Rightarrow> (ADCSRA s, ADC s, [])
      | r # rs \<Rightarrow> (ADCSRA s AND NOT 0x40, r, rs))"

definition echo_hw :: "'h hardware" where
  "echo_hw s = (ADCSRA s AND NOT 0x40, ucast (ADMUX s AND 0x07), hidden s)"

definition stuck_hw :: "'h hardware" where
  "stuck_hw s = (ADCSRA s, ADC s, hidden s)"

section \<open>Properties of the driver\<close>

text \<open>
  The definitions a run of the driver on given registers unfolds. Used with the weak
  congruence rule of \<open>case\<close> on options, the simplifier runs the driver in the order of
  the program.
\<close>

lemmas run_simps =
  read_oversampled_def sample_loop.simps read_once_def spin.simps advance_def Let_def atmega_def

subsection \<open>Bits\<close>

text \<open>The masks of \<open>read_once\<close> split a register into its low three and high five bits.\<close>

lemma mask7: "(0x07 :: u8) = mask 3" by (simp add: mask_eq_exp_minus_1)

lemma maskF8: "(0xF8 :: u8) = NOT (mask 3)" by (simp add: mask_eq_exp_minus_1)

lemma low3: "(x AND 0xF8 OR (c AND 0x07)) AND 0x07 = c AND (0x07 :: u8)"
  unfolding mask7 maskF8 by (rule bit_word_eqI) (auto simp: bit_simps)

lemma high5: "(x AND 0xF8 OR (c AND 0x07)) AND 0xF8 = x AND (0xF8 :: u8)"
  unfolding mask7 maskF8 by (rule bit_word_eqI) (auto simp: bit_simps)

lemma unat_low3: "unat (c AND (0x07 :: u8)) = unat c mod 8"
proof -
  have "c AND 0x07 = c mod 8"
    unfolding mask7 by (simp add: take_bit_eq_mod flip: take_bit_eq_mask)
  then show ?thesis by (simp add: unat_mod)
qed

text \<open>Setting and clearing one bit, as the constructor does.\<close>

lemma bit_set: "n < 8 \<Longrightarrow> bit (x OR (2 :: u8) ^ n) m \<longleftrightarrow> bit x m \<or> m = n"
  by (auto simp: bit_simps)

lemma bit_clear: "bit (x AND NOT ((2 :: u8) ^ n)) m \<longleftrightarrow> bit x m \<and> m \<noteq> n"
  by (auto simp: bit_simps dest: bit_imp_le_length)

lemma busy_set: "(x OR 0x40) AND (0x40 :: u8) \<noteq> 0"
proof -
  have "bit ((x OR 0x40) AND (0x40 :: u8)) 6"
    by (simp add: bit_simps)
  then show ?thesis by auto
qed

subsection \<open>The busy-wait loop\<close>

text \<open>
  \<open>read_once\<close> is its loop, entered with the conversion started. The loop keeps
  \<open>ADMUX\<close>; it returns exactly when some number of hardware steps clears bit 6, and
  then with the registers after the first such number of steps.
\<close>

lemma read_once_eq:
  "read_once hw io ch s =
     (case spin hw (conversion_started io ch s) of None \<Rightarrow> None | Some s' \<Rightarrow> Some (ADC s', s'))"
  by (simp add: read_once_def conversion_started_def Let_def split: option.splits)

lemma advance_ADMUX: "ADMUX (advance hw s) = ADMUX s"
  by (simp add: advance_def split: prod.splits)

lemma spin_ADMUX:
  assumes "spin hw s = Some s'"
  shows "ADMUX s' = ADMUX s"
proof (rule spin.raw_induct [where P = "\<lambda>hw s s'. ADMUX s' = ADMUX s"])
  show "spin hw s = Some s'" by fact
next
  fix f and hw :: "'a hardware" and s y
  assume IH: "\<And>h t z. f h t = Some z \<Longrightarrow> ADMUX z = ADMUX t"
    and step: "(if ADCSRA s AND 0x40 \<noteq> 0 then f hw (advance hw s) else Some s) = Some y"
  show "ADMUX y = ADMUX s"
  proof (cases "ADCSRA s AND 0x40 = 0")
    case True
    with step show ?thesis by simp
  next
    case False
    with step have "f hw (advance hw s) = Some y" by simp
    from IH [OF this] show ?thesis by (simp add: advance_ADMUX)
  qed
qed

lemma spin_returns:
  "ADCSRA ((advance hw ^^ n) s) AND 0x40 = 0 \<Longrightarrow> \<exists>s'. spin hw s = Some s'"
proof (induction n arbitrary: s)
  case 0
  then show ?case by (subst spin.simps) simp
next
  case (Suc n)
  show ?case
  proof (cases "ADCSRA s AND 0x40 = 0")
    case True
    then show ?thesis by (subst spin.simps) simp
  next
    case False
    from Suc.prems have "ADCSRA ((advance hw ^^ n) (advance hw s)) AND 0x40 = 0"
      by (simp add: funpow_swap1)
    from Suc.IH [OF this] obtain s' where "spin hw (advance hw s) = Some s'" ..
    with False show ?thesis by (subst spin.simps) simp
  qed
qed

lemma spin_returned:
  assumes "spin hw s = Some s'"
  shows "\<exists>n. (advance hw ^^ n) s = s' \<and> ADCSRA s' AND 0x40 = 0"
proof (rule spin.raw_induct
    [where P = "\<lambda>hw s s'. \<exists>n. (advance hw ^^ n) s = s' \<and> ADCSRA s' AND 0x40 = 0"])
  show "spin hw s = Some s'" by fact
next
  fix f and hw :: "'a hardware" and s y
  assume IH: "\<And>h t z. f h t = Some z \<Longrightarrow>
                \<exists>n. (advance h ^^ n) t = z \<and> ADCSRA z AND 0x40 = 0"
    and step: "(if ADCSRA s AND 0x40 \<noteq> 0 then f hw (advance hw s) else Some s) = Some y"
  show "\<exists>n. (advance hw ^^ n) s = y \<and> ADCSRA y AND 0x40 = 0"
  proof (cases "ADCSRA s AND 0x40 = 0")
    case True
    with step have "(advance hw ^^ 0) s = y \<and> ADCSRA y AND 0x40 = 0" by simp
    then show ?thesis by blast
  next
    case False
    with step have "f hw (advance hw s) = Some y" by simp
    from IH [OF this] obtain n where "(advance hw ^^ n) (advance hw s) = y"
      and "ADCSRA y AND 0x40 = 0" by blast
    then have "(advance hw ^^ Suc n) s = y \<and> ADCSRA y AND 0x40 = 0"
      by (simp add: funpow_swap1)
    then show ?thesis by blast
  qed
qed

text \<open>The simulated converters.\<close>

lemma advance_stuck: "advance stuck_hw s = s"
  by (simp add: advance_def stuck_hw_def)

lemma funpow_stuck: "(advance stuck_hw ^^ n) s = s"
  by (induction n) (simp_all add: advance_stuck)

lemma spin_stuck:
  assumes "ADCSRA s AND 0x40 \<noteq> 0"
  shows "spin stuck_hw s = None"
proof (cases "spin stuck_hw s")
  case None
  then show ?thesis .
next
  case (Some s')
  from spin_returned [OF Some] obtain n where "(advance stuck_hw ^^ n) s = s'"
    and "ADCSRA s' AND 0x40 = 0" by blast
  with assms show ?thesis by (simp add: funpow_stuck)
qed

lemma read_once_echo:
  "read_once echo_hw atmega ch s =
     Some (ucast (ch AND 0x07),
           s\<lparr>ADMUX := (ADMUX s AND 0xF8) OR (ch AND 0x07),
             ADCSRA := (ADCSRA s OR 0x40) AND NOT 0x40,
             ADC := ucast (ch AND 0x07)\<rparr>)"
proof -
  let ?t = "conversion_started atmega ch s"
  have busy: "ADCSRA ?t AND 0x40 \<noteq> 0"
    by (simp add: conversion_started_def atmega_def busy_set)
  have idle: "ADCSRA (advance echo_hw ?t) AND 0x40 = 0"
    by (simp add: advance_def echo_hw_def and.assoc)
  have "spin echo_hw ?t = spin echo_hw (advance echo_hw ?t)"
    using busy by (subst spin.simps) simp
  also have "\<dots> = Some (advance echo_hw ?t)"
    using idle by (subst spin.simps) simp
  finally show ?thesis
    by (simp add: read_once_eq advance_def echo_hw_def conversion_started_def atmega_def low3)
qed

subsection \<open>The sampling loop\<close>

text \<open>
  The loop of \<open>read_oversampled\<close> is a sweep over as many copies of the channel as the
  counter says, with the readings added to the accumulator.
\<close>

lemma sweep_length: "sweep hw io cs s = Some (rs, s') \<Longrightarrow> length rs = length cs"
  by (induction cs arbitrary: s rs) (auto split: option.splits)

lemma sample_loop_sweep:
  "sample_loop hw io ch n acc s =
     (case sweep hw io (replicate (unat n) ch) s of
        None \<Rightarrow> None
      | Some (rs, s') \<Rightarrow> Some (acc + sum_list rs, s'))"
proof (induction hw io ch n acc s rule: sample_loop.induct)
  case (1 hw io ch n acc s)
  show ?case
  proof (cases "n = 0")
    case True
    then show ?thesis by (subst sample_loop.simps) simp
  next
    case False
    then have pos: "0 < uint n" by (simp add: word_greater_zero_iff uint_0_iff less_le)
    from False have Suc: "unat n = Suc (unat (n - 1))"
      by (simp add: unat_minus_one unat_gt_0)
    show ?thesis
    proof (cases "read_once hw io ch s")
      case None
      with pos Suc show ?thesis by (subst sample_loop.simps) simp
    next
      case (Some p)
      obtain r s1 where p: "p = (r, s1)" by (cases p)
      from "1.IH" [OF pos Some [unfolded p] refl]
      have "sample_loop hw io ch (n - 1) (acc + r) s1 =
            (case sweep hw io (replicate (unat (n - 1)) ch) s1 of
               None \<Rightarrow> None
             | Some (rs, s') \<Rightarrow> Some (acc + r + sum_list rs, s'))" .
      with pos Suc Some p show ?thesis
        by (subst sample_loop.simps) (simp add: add.assoc split: option.splits)
    qed
  qed
qed

lemma post_clamp_le: "unat (post_clamp samples) \<le> 63"
  by (simp add: post_clamp_def word_le_nat_alt not_le word_less_nat_alt)

lemma post_clamp_eq_0: "post_clamp samples = 0 \<longleftrightarrow> samples = 0"
  by (auto simp: post_clamp_def)

lemma read_oversampled_sweep:
  "read_oversampled hw io channel samples s =
     (case sweep hw io (replicate (unat (post_clamp samples)) channel) s of
        None \<Rightarrow> None
      | Some (rs, s') \<Rightarrow>
          if post_clamp samples = 0 then Some (Inl DivisionByZero)
          else Some (Inr (sum_list rs div ucast (post_clamp samples), s')))"
  by (simp add: read_oversampled_def post_clamp_def sample_loop_sweep Let_def
      split: option.splits)

subsection \<open>Sums of readings\<close>

text \<open>
  The 16-bit sum of a list of readings is their sum modulo 65536, and up to 63 readings
  of at most 1023 add up to at most 64449.
\<close>

lemma unat_ucast_u8: "unat (ucast (n :: u8) :: u16) = unat n"
proof -
  have "unat n < 2 ^ 16" using unsigned_less [of n, where ?'a = nat] by simp
  then show ?thesis by (simp add: unsigned_ucast_eq take_bit_nat_eq_self)
qed

lemma unat_sum_list: "unat (sum_list rs :: u16) = sum_list (map unat rs) mod 65536"
proof (induction rs)
  case Nil
  show ?case by simp
next
  case (Cons r rs)
  have "unat (r + sum_list rs) = (unat r + unat (sum_list rs)) mod 65536"
    by (simp add: unat_word_ariths)
  also have "\<dots> = (unat r + sum_list (map unat rs)) mod 65536"
    by (simp add: Cons.IH mod_add_right_eq)
  finally show ?case by simp
qed

lemma sum_list_bound:
  "\<forall>r\<in>set rs. r \<le> (1023 :: u16) \<Longrightarrow> sum_list (map unat rs) \<le> 1023 * length rs"
proof (induction rs)
  case Nil
  show ?case by simp
next
  case (Cons r rs)
  then have "unat r \<le> 1023" by (simp add: word_le_nat_alt)
  moreover from Cons have "sum_list (map unat rs) \<le> 1023 * length rs" by simp
  ultimately show ?case by simp
qed

lemma take_bound:
  assumes "\<forall>r\<in>set rs. r \<le> (1023 :: u16)" and "length rs \<le> 63"
  shows "sum_list (map unat (take k rs)) \<le> 64449"
proof -
  have "\<forall>r\<in>set (take k rs). r \<le> 1023"
    using assms(1) by (auto dest: in_set_takeD)
  from sum_list_bound [OF this] have "sum_list (map unat (take k rs)) \<le> 1023 * length (take k rs)" .
  also have "\<dots> \<le> 1023 * 63" using assms(2) by simp
  finally show ?thesis by simp
qed

subsection \<open>The printing chain\<close>

text \<open>The chain has ten lines, and no two of them convert the same channel.\<close>

lemma length_chain: "length chain = 10" by (simp add: chain_def)

lemma upt10: "[0..<10] = [0,1,2,3,4,5,6,7,8,9]" by (simp add: upt_rec)

lemma lt10: "i < 10 \<Longrightarrow> i = 0 \<or> i = 1 \<or> i = 2 \<or> i = 3 \<or> i = 4 \<or> i = 5 \<or> i = 6 \<or> i = 7 \<or> i = 8 \<or> (i :: nat) = 9"
  by arith

lemma chain_inj:
  assumes "i < 10" and "j < 10"
    and "snd (chain ! i) = Read_once ch" and "snd (chain ! j) = Read_once ch"
  shows "i = j"
  using lt10 [OF assms(1)] lt10 [OF assms(2)] assms(3,4)
  by (auto simp: chain_def)

lemma valid_order_set: "valid_order order \<Longrightarrow> set order = {0..<10}"
  by (metis valid_order_def length_chain set_sort set_upt)

lemma valid_order_mset: "valid_order order \<Longrightarrow> mset order = mset [0..<10]"
  by (metis valid_order_def length_chain mset_sort)

text \<open>
  Whatever the order, the conversions are those of the channels 0 to 7, each once, and
  the registers at the end are those of a sweep over the channels in the order of the
  conversions.
\<close>

lemma mset_conversions:
  assumes "mset xs = mset ys"
  shows "mset (conversions xs) = mset (conversions ys)"
proof -
  have "mset (conversions zs) =
        sum_mset (image_mset (\<lambda>i. mset (channel_of (snd (chain ! i)))) (mset zs))" for zs
    by (induction zs) (simp_all add: conversions_def)
  with assms show ?thesis by simp
qed

lemma conversions_all:
  assumes "valid_order order"
  shows "mset (conversions order) = mset [0, 1, 2, 3, 4, 5, 6, 7]"
proof -
  have "conversions [0..<10] = [0, 1, 2, 3, 4, 5, 6, 7]"
    by (simp add: upt10 conversions_def chain_def)
  with mset_conversions [OF valid_order_mset [OF assms]] show ?thesis by simp
qed

lemma conversions_Cons:
  "conversions (i # order) = channel_of (snd (chain ! i)) @ conversions order"
  by (simp add: conversions_def)

lemma snd_case_option:
  "map_option snd (case x of None \<Rightarrow> None | Some (vs, t) \<Rightarrow> Some (f vs, t)) = map_option snd x"
  by (auto split: option.splits)

lemma eval_operands_state:
  "map_option snd (eval_operands hw io order s) =
   map_option snd (sweep hw io (conversions order) s)"
proof (induction order arbitrary: s)
  case Nil
  show ?case by (simp add: conversions_def)
next
  case (Cons i order)
  show ?case
  proof (cases "snd (chain ! i)")
    case Reg_ADCSRA
    with Cons [of s] show ?thesis
      by (simp add: conversions_Cons snd_case_option)
  next
    case Reg_ADMUX
    with Cons [of s] show ?thesis
      by (simp add: conversions_Cons snd_case_option)
  next
    case (Read_once ch)
    show ?thesis
    proof (cases "read_once hw io ch s")
      case None
      with Read_once show ?thesis by (simp add: conversions_Cons)
    next
      case (Some p)
      obtain r s1 where p: "p = (r, s1)" by (cases p)
      with Some Read_once Cons [of s1] show ?thesis
        by (simp add: conversions_Cons snd_case_option)
    qed
  qed
qed

text \<open>
  The value kept for a line with a conversion is the reading of the conversion of its
  channel; the value kept for a line with a register is the register at the moment
  the operand is evaluated.
\<close>

lemma eval_operands_readings:
  assumes "eval_operands hw io order s = Some (vs, s')" and "set order \<subseteq> {0..<10}"
  shows "\<exists>rs. sweep hw io (conversions order) s = Some (rs, s') \<and>
           (\<forall>i ch. i \<in> set order \<and> snd (chain ! i) = Read_once ch \<longrightarrow>
              (\<exists>r. map_of vs i = Some (U16 r) \<and>
                   map_of (zip (conversions order) rs) ch = Some r))"
  using assms
proof (induction order arbitrary: s vs)
  case Nil
  then show ?case by (simp add: conversions_def)
next
  case (Cons j order)
  from Cons.prems(2) have j: "j < 10" and sub: "set order \<subseteq> {0..<10}" by auto
  from Cons.prems(1) obtain v s1 vs' where
    ev: "eval_operand hw io (snd (chain ! j)) s = Some (v, s1)"
    and rest: "eval_operands hw io order s1 = Some (vs', s')"
    and vs: "vs = (j, v) # vs'"
    by (auto split: option.splits)
  from Cons.IH [OF rest sub] obtain rs where
    sw: "sweep hw io (conversions order) s1 = Some (rs, s')"
    and rd: "\<And>i ch. i \<in> set order \<Longrightarrow> snd (chain ! i) = Read_once ch \<Longrightarrow>
              \<exists>r. map_of vs' i = Some (U16 r) \<and> map_of (zip (conversions order) rs) ch = Some r"
    by blast
  show ?case
  proof (cases "snd (chain ! j)")
    case Reg_ADCSRA
    with ev have "s1 = s" by simp
    with sw Reg_ADCSRA have "sweep hw io (conversions (j # order)) s = Some (rs, s')"
      by (simp add: conversions_Cons)
    moreover have "\<exists>r. map_of vs i = Some (U16 r) \<and>
                     map_of (zip (conversions (j # order)) rs) ch = Some r"
      if "i \<in> set (j # order)" "snd (chain ! i) = Read_once ch" for i ch
    proof -
      from that Reg_ADCSRA have "i \<noteq> j" by auto
      with that rd [of i ch] Reg_ADCSRA show ?thesis
        by (simp add: vs conversions_Cons)
    qed
    ultimately show ?thesis by blast
  next
    case Reg_ADMUX
    with ev have "s1 = s" by simp
    with sw Reg_ADMUX have "sweep hw io (conversions (j # order)) s = Some (rs, s')"
      by (simp add: conversions_Cons)
    moreover have "\<exists>r. map_of vs i = Some (U16 r) \<and>
                     map_of (zip (conversions (j # order)) rs) ch = Some r"
      if "i \<in> set (j # order)" "snd (chain ! i) = Read_once ch" for i ch
    proof -
      from that Reg_ADMUX have "i \<noteq> j" by auto
      with that rd [of i ch] Reg_ADMUX show ?thesis
        by (simp add: vs conversions_Cons)
    qed
    ultimately show ?thesis by blast
  next
    case (Read_once c)
    with ev obtain r0 where ro: "read_once hw io c s = Some (r0, s1)" and v: "v = U16 r0"
      by (auto split: option.splits)
    from ro sw Read_once have "sweep hw io (conversions (j # order)) s = Some (r0 # rs, s')"
      by (simp add: conversions_Cons)
    moreover have "\<exists>r. map_of vs i = Some (U16 r) \<and>
                     map_of (zip (conversions (j # order)) (r0 # rs)) ch = Some r"
      if mem: "i \<in> set (j # order)" and op: "snd (chain ! i) = Read_once ch" for i ch
    proof (cases "i = j")
      case True
      with op Read_once have "ch = c" by simp
      with True Read_once show ?thesis by (simp add: vs v conversions_Cons)
    next
      case False
      with mem have io: "i \<in> set order" by simp
      with sub have "i < 10" by auto
      from chain_inj [OF this j op] False Read_once have "ch \<noteq> c" by auto
      with rd [OF io op] False Read_once show ?thesis
        by (simp add: vs conversions_Cons)
    qed
    ultimately show ?thesis by blast
  qed
qed

lemma registers_at_here: "registers_at hw io (i # order) i s = Some s"
  by (simp add: registers_at_def conversions_def)

lemma registers_at_Cons:
  assumes "j \<noteq> i" and "eval_operand hw io (snd (chain ! j)) s = Some (v, s1)"
  shows "registers_at hw io (j # order) i s = registers_at hw io order i s1"
proof (cases "snd (chain ! j)")
  case Reg_ADCSRA
  with assms show ?thesis by (simp add: registers_at_def conversions_Cons)
next
  case Reg_ADMUX
  with assms show ?thesis by (simp add: registers_at_def conversions_Cons)
next
  case (Read_once c)
  with assms(2) obtain r0 where "read_once hw io c s = Some (r0, s1)"
    by (auto split: option.splits)
  with assms(1) Read_once show ?thesis
    by (simp add: registers_at_def conversions_Cons snd_case_option)
qed

lemma eval_operands_registers:
  assumes "eval_operands hw io order s = Some (vs, s')" and "i \<in> set order"
  shows "\<exists>t. registers_at hw io order i s = Some t \<and>
           (snd (chain ! i) = Reg_ADCSRA \<longrightarrow> map_of vs i = Some (U8 (ADCSRA t))) \<and>
           (snd (chain ! i) = Reg_ADMUX \<longrightarrow> map_of vs i = Some (U8 (ADMUX t)))"
  using assms
proof (induction order arbitrary: s vs)
  case Nil
  then show ?case by simp
next
  case (Cons j order)
  from Cons.prems(1) obtain v s1 vs' where
    ev: "eval_operand hw io (snd (chain ! j)) s = Some (v, s1)"
    and rest: "eval_operands hw io order s1 = Some (vs', s')"
    and vs: "vs = (j, v) # vs'"
    by (auto split: option.splits)
  show ?case
  proof (cases "j = i")
    case True
    with ev have "snd (chain ! i) = Reg_ADCSRA \<longrightarrow> map_of vs i = Some (U8 (ADCSRA s))"
      and "snd (chain ! i) = Reg_ADMUX \<longrightarrow> map_of vs i = Some (U8 (ADMUX s))"
      by (auto simp: vs)
    with True registers_at_here [of hw io i order s] show ?thesis by blast
  next
    case False
    with Cons.prems(2) have "i \<in> set order" by simp
    from Cons.IH [OF rest this] False registers_at_Cons [OF False ev, of order]
    show ?thesis by (simp add: vs)
  qed
qed

lemma sweep_echo:
  "\<exists>s'. sweep echo_hw atmega cs s = Some (map (\<lambda>c. ucast (c AND 0x07)) cs, s')"
proof (induction cs arbitrary: s)
  case Nil
  show ?case by simp
next
  case (Cons c cs)
  obtain r s1 where ro: "read_once echo_hw atmega c s = Some (r, s1)" and r: "r = ucast (c AND 0x07)"
    by (simp add: read_once_echo)
  from Cons [of s1] obtain s' where
    "sweep echo_hw atmega cs s1 = Some (map (\<lambda>c. ucast (c AND 0x07)) cs, s')" ..
  with ro r show ?case by simp
qed

lemma map_of_readings:
  "c \<in> set cs \<Longrightarrow> map_of (zip cs (map f cs)) c = Some (f c)"
  by (simp add: map_of_zip_map)

lemma print_adc_none:
  assumes "sweep hw io (conversions order) s = None"
  shows "print_adc hw io order serpt s = None"
proof -
  from eval_operands_state [of hw io order s] assms
  have "eval_operands hw io order s = None" by simp
  then show ?thesis by (simp add: print_adc_def)
qed

lemma print_adc_lines:
  assumes "valid_order order" and "sweep hw io (conversions order) s = Some (rs, s')"
  shows "\<exists>ta tm r0 r1 r2 r3 r4 r5 r6 r7.
           registers_at hw io order 0 s = Some ta \<and>
           registers_at hw io order 1 s = Some tm \<and>
           map_of (zip (conversions order) rs) 0 = Some r0 \<and>
           map_of (zip (conversions order) rs) 1 = Some r1 \<and>
           map_of (zip (conversions order) rs) 2 = Some r2 \<and>
           map_of (zip (conversions order) rs) 3 = Some r3 \<and>
           map_of (zip (conversions order) rs) 4 = Some r4 \<and>
           map_of (zip (conversions order) rs) 5 = Some r5 \<and>
           map_of (zip (conversions order) rs) 6 = Some r6 \<and>
           map_of (zip (conversions order) rs) 7 = Some r7 \<and>
           print_adc hw io order serpt s =
             Some (serpt @
                   [PMS ''ADCSRA: '', U8 (ADCSRA ta), Endl,
                    PMS ''ADMUX: '', U8 (ADMUX tm), Endl,
                    PMS ''ADC0 = '', U16 r0, Endl,
                    PMS ''ADC1 = '', U16 r1, Endl,
                    PMS ''ADC2 = '', U16 r2, Endl,
                    PMS ''ADC3 = '', U16 r3, Endl,
                    PMS ''ADC4 = '', U16 r4, Endl,
                    PMS ''ADC5 = '', U16 r5, Endl,
                    PMS ''ADC6 = '', U16 r6, Endl,
                    PMS ''ADC7 = '', U16 r7, Endl], s')"
proof -
  from valid_order_set [OF assms(1)] have mem: "i \<in> set order" if "i < 10" for i
    using that by simp
  from valid_order_set [OF assms(1)] have sub: "set order \<subseteq> {0..<10}" by simp
  from eval_operands_state [of hw io order s] assms(2)
  obtain vs where ev: "eval_operands hw io order s = Some (vs, s')"
    by (cases "eval_operands hw io order s") auto
  from eval_operands_readings [OF ev sub] assms(2)
  have rd: "\<exists>r. map_of vs i = Some (U16 r) \<and> map_of (zip (conversions order) rs) ch = Some r"
    if "i \<in> set order" "snd (chain ! i) = Read_once ch" for i ch
    using that by auto
  from eval_operands_registers [OF ev mem, of 0] obtain ta where
    ta: "registers_at hw io order 0 s = Some ta" "map_of vs 0 = Some (U8 (ADCSRA ta))"
    by (auto simp: chain_def)
  from eval_operands_registers [OF ev mem, of 1] obtain tm where
    tm: "registers_at hw io order 1 s = Some tm" "map_of vs 1 = Some (U8 (ADMUX tm))"
    by (auto simp: chain_def)
  from rd [OF mem, of 2 0] obtain r0 where
    r0: "map_of vs 2 = Some (U16 r0)" "map_of (zip (conversions order) rs) 0 = Some r0"
    by (auto simp: chain_def)
  from rd [OF mem, of 3 1] obtain r1 where
    r1: "map_of vs 3 = Some (U16 r1)" "map_of (zip (conversions order) rs) 1 = Some r1"
    by (auto simp: chain_def)
  from rd [OF mem, of 4 2] obtain r2 where
    r2: "map_of vs 4 = Some (U16 r2)" "map_of (zip (conversions order) rs) 2 = Some r2"
    by (auto simp: chain_def)
  from rd [OF mem, of 5 3] obtain r3 where
    r3: "map_of vs 5 = Some (U16 r3)" "map_of (zip (conversions order) rs) 3 = Some r3"
    by (auto simp: chain_def)
  from rd [OF mem, of 6 4] obtain r4 where
    r4: "map_of vs 6 = Some (U16 r4)" "map_of (zip (conversions order) rs) 4 = Some r4"
    by (auto simp: chain_def)
  from rd [OF mem, of 7 5] obtain r5 where
    r5: "map_of vs 7 = Some (U16 r5)" "map_of (zip (conversions order) rs) 5 = Some r5"
    by (auto simp: chain_def)
  from rd [OF mem, of 8 6] obtain r6 where
    r6: "map_of vs 8 = Some (U16 r6)" "map_of (zip (conversions order) rs) 6 = Some r6"
    by (auto simp: chain_def)
  from rd [OF mem, of 9 7] obtain r7 where
    r7: "map_of vs 9 = Some (U16 r7)" "map_of (zip (conversions order) rs) 7 = Some r7"
    by (auto simp: chain_def)
  have "write_chain serpt vs =
          serpt @
          [PMS ''ADCSRA: '', U8 (ADCSRA ta), Endl,
           PMS ''ADMUX: '', U8 (ADMUX tm), Endl,
           PMS ''ADC0 = '', U16 r0, Endl,
           PMS ''ADC1 = '', U16 r1, Endl,
           PMS ''ADC2 = '', U16 r2, Endl,
           PMS ''ADC3 = '', U16 r3, Endl,
           PMS ''ADC4 = '', U16 r4, Endl,
           PMS ''ADC5 = '', U16 r5, Endl,
           PMS ''ADC6 = '', U16 r6, Endl,
           PMS ''ADC7 = '', U16 r7, Endl]"
    by (simp add: write_chain_def length_chain upt10
        ta tm [unfolded One_nat_def] r0 r1 r2 r3 r4 r5 r6 r7)
      (simp add: chain_def)
  with ev have "print_adc hw io order serpt s =
             Some (serpt @
                   [PMS ''ADCSRA: '', U8 (ADCSRA ta), Endl,
                    PMS ''ADMUX: '', U8 (ADMUX tm), Endl,
                    PMS ''ADC0 = '', U16 r0, Endl,
                    PMS ''ADC1 = '', U16 r1, Endl,
                    PMS ''ADC2 = '', U16 r2, Endl,
                    PMS ''ADC3 = '', U16 r3, Endl,
                    PMS ''ADC4 = '', U16 r4, Endl,
                    PMS ''ADC5 = '', U16 r5, Endl,
                    PMS ''ADC6 = '', U16 r6, Endl,
                    PMS ''ADC7 = '', U16 r7, Endl], s')"
    by (simp add: print_adc_def)
  with ta(1) tm(1) r0(2) r1(2) r2(2) r3(2) r4(2) r5(2) r6(2) r7(2) show ?thesis
    by blast
qed

subsection \<open>The constructor\<close>

text \<open>
  Claim C6. The constructor sets \<open>ADEN\<close>, sets \<open>ADPS0\<close>, clears \<open>ADPS1\<close> and
  sets \<open>ADPS2\<close> in \<open>ADCSRA\<close>, sets \<open>REFS0\<close> and clears \<open>REFS1\<close> in \<open>ADMUX\<close>, and
  leaves every other bit of the two registers, and the data register, as it was.
\<close>

theorem adc_configures:
  assumes "layout_ok io" and "s' = snd (adc io p_serial_port s)"
  shows "bit (ADCSRA s') (ADEN io) \<and>
         bit (ADCSRA s') (ADPS0 io) \<and> \<not> bit (ADCSRA s') (ADPS1 io) \<and> bit (ADCSRA s') (ADPS2 io) \<and>
         bit (ADMUX s') (REFS0 io) \<and> \<not> bit (ADMUX s') (REFS1 io) \<and>
         (\<forall>n. n \<notin> {ADEN io, ADPS0 io, ADPS1 io, ADPS2 io} \<longrightarrow>
              bit (ADCSRA s') n = bit (ADCSRA s) n) \<and>
         (\<forall>n. n \<notin> {REFS0 io, REFS1 io} \<longrightarrow> bit (ADMUX s') n = bit (ADMUX s) n) \<and>
         ADC s' = ADC s \<and> hidden s' = hidden s"
proof -
  from assms(2) have csr: "ADCSRA s' =
      ((((ADCSRA s OR 2 ^ ADEN io) OR 2 ^ ADPS0 io) AND NOT (2 ^ ADPS1 io)) OR 2 ^ ADPS2 io)"
    and mux: "ADMUX s' = (ADMUX s OR 2 ^ REFS0 io) AND NOT (2 ^ REFS1 io)"
    and rest: "ADC s' = ADC s" "hidden s' = hidden s"
    by (simp_all add: adc_def Let_def)
  from assms(1) have lt: "ADEN io < 8" "ADPS0 io < 8" "ADPS1 io < 8" "ADPS2 io < 8"
      "REFS0 io < 8" "REFS1 io < 8"
    and ne: "ADEN io \<noteq> ADPS1 io" "ADPS0 io \<noteq> ADPS1 io" "ADPS2 io \<noteq> ADPS1 io"
      "REFS0 io \<noteq> REFS1 io"
    by (auto simp: layout_ok_def)
  have c: "bit (ADCSRA s') m \<longleftrightarrow>
      (bit (ADCSRA s) m \<or> m = ADEN io \<or> m = ADPS0 io) \<and> m \<noteq> ADPS1 io \<or> m = ADPS2 io" for m
    unfolding csr by (simp add: bit_set bit_clear lt)
  have m: "bit (ADMUX s') m \<longleftrightarrow> (bit (ADMUX s) m \<or> m = REFS0 io) \<and> m \<noteq> REFS1 io" for m
    unfolding mux by (simp add: bit_set bit_clear lt)
  from ne rest show ?thesis
    by (auto simp: c m)
qed

text \<open>The ATmega layout, starting from \<open>ADCSRA = 0x5A\<close> and \<open>ADMUX = 0xA5\<close>.\<close>

theorem adc_configures_witness:
  "layout_ok atmega \<and>
   snd (adc atmega [] \<lparr>ADCSRA = 0x5A, ADMUX = 0xA5, ADC = 0x123, hidden = ()\<rparr>) =
     \<lparr>ADCSRA = 0xDD, ADMUX = 0x65, ADC = 0x123, hidden = ()\<rparr> \<and>
   bit (0xDD :: u8) (ADEN atmega) \<and>
   bit (0xDD :: u8) (ADPS0 atmega) \<and> \<not> bit (0xDD :: u8) (ADPS1 atmega) \<and>
   bit (0xDD :: u8) (ADPS2 atmega) \<and>
   bit (0x65 :: u8) (REFS0 atmega) \<and> \<not> bit (0x65 :: u8) (REFS1 atmega)"
proof -
  have a: "layout_ok atmega" by (simp add: layout_ok_def atmega_def)
  have b: "\<lparr>ADCSRA = 0xDD, ADMUX = 0x65, ADC = 0x123, hidden = ()\<rparr> =
      snd (adc atmega [] \<lparr>ADCSRA = 0x5A, ADMUX = 0xA5, ADC = 0x123, hidden = ()\<rparr>)"
    by (simp add: adc_def Let_def atmega_def)
  from adc_configures [OF a b] a b [symmetric] show ?thesis by simp
qed

subsection \<open>The single conversion\<close>

text \<open>
  Claim C2. \<open>read_once\<close> enters its busy-wait loop with the channel modulo 8 in the
  low three bits of \<open>ADMUX\<close> and the other five bits as they were before the call,
  and when it returns \<open>ADMUX\<close> still has that value.
\<close>

theorem read_once_selects_channel:
  "read_once hw io c s =
     (case spin hw (conversion_started io c s) of
        None \<Rightarrow> None
      | Some s' \<Rightarrow> Some (ADC s', s')) \<and>
   ADMUX (conversion_started io c s) AND 0x07 = c AND 0x07 \<and>
   unat (ADMUX (conversion_started io c s) AND 0x07) = unat c mod 8 \<and>
   ADMUX (conversion_started io c s) AND 0xF8 = ADMUX s AND 0xF8 \<and>
   (\<forall>r s'. read_once hw io c s = Some (r, s') \<longrightarrow>
      ADMUX s' AND 0x07 = c AND 0x07 \<and>
      unat (ADMUX s' AND 0x07) = unat c mod 8 \<and>
      ADMUX s' AND 0xF8 = ADMUX s AND 0xF8)"
proof -
  have entry: "ADMUX (conversion_started io c s) = (ADMUX s AND 0xF8) OR (c AND 0x07)"
    by (simp add: conversion_started_def)
  have exit: "ADMUX s' = (ADMUX s AND 0xF8) OR (c AND 0x07)"
    if "read_once hw io c s = Some (r, s')" for r s'
  proof -
    from that have "spin hw (conversion_started io c s) = Some s'"
      by (auto simp: read_once_eq split: option.splits)
    from spin_ADMUX [OF this] entry show ?thesis by simp
  qed
  show ?thesis
    using read_once_eq [of hw io c s] exit
    by (simp add: entry low3 high5 unat_low3)
qed

text \<open>Channel 171 selects input 3 and keeps the upper bits of \<open>ADMUX\<close>.\<close>

theorem read_once_selects_channel_witness:
  "read_once echo_hw atmega 0xAB \<lparr>ADCSRA = 0x85, ADMUX = 0x65, ADC = 0, hidden = ()\<rparr> =
     Some (3, \<lparr>ADCSRA = 0x85, ADMUX = 0x63, ADC = 3, hidden = ()\<rparr>) \<and>
   (0x63 :: u8) AND 0x07 = 0xAB AND 0x07 \<and>
   unat ((0x63 :: u8) AND 0x07) = unat (0xAB :: u8) mod 8 \<and>
   (0x63 :: u8) AND 0xF8 = 0x65 AND 0xF8"
proof -
  have a: "read_once echo_hw atmega 0xAB \<lparr>ADCSRA = 0x85, ADMUX = 0x65, ADC = 0, hidden = ()\<rparr> =
     Some (3, \<lparr>ADCSRA = 0x85, ADMUX = 0x63, ADC = 3, hidden = ()\<rparr>)"
    by (simp add: read_once_def spin.simps advance_def atmega_def echo_hw_def)
  from read_once_selects_channel [of echo_hw atmega "0xAB"
      "\<lparr>ADCSRA = 0x85, ADMUX = 0x65, ADC = 0, hidden = ()\<rparr>"] a
  have "ADMUX \<lparr>ADCSRA = 0x85, ADMUX = 0x63 :: u8, ADC = 3 :: u16, hidden = ()\<rparr> AND 0x07 =
          0xAB AND 0x07 \<and>
        unat (ADMUX \<lparr>ADCSRA = 0x85, ADMUX = 0x63 :: u8, ADC = 3 :: u16, hidden = ()\<rparr> AND 0x07) =
          unat (0xAB :: u8) mod 8 \<and>
        ADMUX \<lparr>ADCSRA = 0x85, ADMUX = 0x63 :: u8, ADC = 3 :: u16, hidden = ()\<rparr> AND 0xF8 =
          ADMUX \<lparr>ADCSRA = 0x85, ADMUX = 0x65 :: u8, ADC = 0 :: u16, hidden = ()\<rparr> AND 0xF8"
    by blast
  with a show ?thesis by simp
qed

text \<open>
  Claim C8. \<open>read_once\<close> returns when the hardware, some number of steps after the
  conversion was started, shows bit 6 of \<open>ADCSRA\<close> clear. When the hardware never
  clears the bit, \<open>read_once\<close> does not return; the converter that never does
  anything is such a case.
\<close>

theorem read_once_terminates:
  "((\<exists>n. ADCSRA ((advance hw ^^ n) (conversion_started io ch s)) AND 0x40 = 0) \<longrightarrow>
      (\<exists>r s'. read_once hw io ch s = Some (r, s'))) \<and>
   ((\<forall>n. ADCSRA ((advance hw ^^ n) (conversion_started io ch s)) AND 0x40 \<noteq> 0) \<longrightarrow>
      read_once hw io ch s = None) \<and>
   read_once stuck_hw atmega ch s = None"
proof (intro conjI impI)
  assume "\<exists>n. ADCSRA ((advance hw ^^ n) (conversion_started io ch s)) AND 0x40 = 0"
  then obtain n where "ADCSRA ((advance hw ^^ n) (conversion_started io ch s)) AND 0x40 = 0" ..
  from spin_returns [OF this] obtain t where "spin hw (conversion_started io ch s) = Some t" ..
  then have "read_once hw io ch s = Some (ADC t, t)" by (simp add: read_once_eq)
  then show "\<exists>r s'. read_once hw io ch s = Some (r, s')" by blast
next
  assume never: "\<forall>n. ADCSRA ((advance hw ^^ n) (conversion_started io ch s)) AND 0x40 \<noteq> 0"
  have "spin hw (conversion_started io ch s) = None"
  proof (cases "spin hw (conversion_started io ch s)")
    case None
    then show ?thesis .
  next
    case (Some t)
    from spin_returned [OF Some] never show ?thesis by blast
  qed
  then show "read_once hw io ch s = None" by (simp add: read_once_eq)
next
  have "ADCSRA (conversion_started atmega ch s) AND 0x40 \<noteq> 0"
    by (simp add: conversion_started_def atmega_def busy_set)
  from spin_stuck [OF this] show "read_once stuck_hw atmega ch s = None"
    by (simp add: read_once_eq)
qed

text \<open>The converter that answers after one step.\<close>

theorem read_once_terminates_witness:
  "ADCSRA ((advance echo_hw ^^ 1)
      (conversion_started atmega 2 \<lparr>ADCSRA = 0x85, ADMUX = 0x40, ADC = 0, hidden = ()\<rparr>))
     AND 0x40 = 0 \<and>
   (\<exists>r s'. read_once echo_hw atmega 2 \<lparr>ADCSRA = 0x85, ADMUX = 0x40, ADC = 0, hidden = ()\<rparr> =
      Some (r, s')) \<and>
   read_once echo_hw atmega 2 \<lparr>ADCSRA = 0x85, ADMUX = 0x40, ADC = 0, hidden = ()\<rparr> =
     Some (2, \<lparr>ADCSRA = 0x85, ADMUX = 0x42, ADC = 2, hidden = ()\<rparr>)"
proof -
  have a: "ADCSRA ((advance echo_hw ^^ 1)
      (conversion_started atmega 2 \<lparr>ADCSRA = 0x85, ADMUX = 0x40, ADC = 0, hidden = ()\<rparr>))
     AND 0x40 = 0"
    by (simp add: advance_def echo_hw_def conversion_started_def atmega_def)
  then have "\<exists>n. ADCSRA ((advance echo_hw ^^ n)
      (conversion_started atmega 2 \<lparr>ADCSRA = 0x85, ADMUX = 0x40, ADC = 0, hidden = ()\<rparr>))
     AND 0x40 = 0" ..
  with read_once_terminates [of echo_hw atmega 2
      "\<lparr>ADCSRA = 0x85, ADMUX = 0x40, ADC = 0, hidden = ()\<rparr>"]
  have b: "\<exists>r s'. read_once echo_hw atmega 2
      \<lparr>ADCSRA = 0x85, ADMUX = 0x40, ADC = 0, hidden = ()\<rparr> = Some (r, s')"
    by blast
  have c: "read_once echo_hw atmega 2 \<lparr>ADCSRA = 0x85, ADMUX = 0x40, ADC = 0, hidden = ()\<rparr> =
     Some (2, \<lparr>ADCSRA = 0x85, ADMUX = 0x42, ADC = 2, hidden = ()\<rparr>)"
    by (simp add: read_once_def spin.simps advance_def atmega_def echo_hw_def)
  from a b c show ?thesis by (intro conjI)
qed

subsection \<open>The averaged reading\<close>

text \<open>
  Claim C5. For a sample count of at least 1, the loop of \<open>read_oversampled\<close> makes
  one \<open>read_once\<close> call on the channel for each unit of the count after the clamp, no
  more and no fewer, and adds the readings up in 16 bits; \<open>read_oversampled\<close> returns
  that sum divided, rounding down, by the count after the clamp, which is the value
  saved before the loop counts it down.
\<close>

theorem read_oversampled_reads:
  assumes "1 \<le> samples"
  shows "sample_loop hw io channel (post_clamp samples) 0 s =
           (case sweep hw io (replicate (unat (post_clamp samples)) channel) s of
              None \<Rightarrow> None
            | Some (rs, s') \<Rightarrow> Some (sum_list rs, s')) \<and>
         read_oversampled hw io channel samples s =
           (case sweep hw io (replicate (unat (post_clamp samples)) channel) s of
              None \<Rightarrow> None
            | Some (rs, s') \<Rightarrow> Some (Inr (sum_list rs div ucast (post_clamp samples), s'))) \<and>
         (\<forall>rs s'. sweep hw io (replicate (unat (post_clamp samples)) channel) s = Some (rs, s') \<longrightarrow>
            length rs = unat (post_clamp samples) \<and>
            unat (sum_list rs) = sum_list (map unat rs) mod 65536 \<and>
            unat (sum_list rs div ucast (post_clamp samples)) =
              unat (sum_list rs) div unat (post_clamp samples))"
proof -
  from assms have "samples \<noteq> 0" by auto
  then have nz: "post_clamp samples \<noteq> 0" by (simp add: post_clamp_eq_0)
  have loop: "sample_loop hw io channel (post_clamp samples) 0 s =
           (case sweep hw io (replicate (unat (post_clamp samples)) channel) s of
              None \<Rightarrow> None
            | Some (rs, s') \<Rightarrow> Some (sum_list rs, s'))"
    by (simp add: sample_loop_sweep split: option.splits)
  have whole: "read_oversampled hw io channel samples s =
           (case sweep hw io (replicate (unat (post_clamp samples)) channel) s of
              None \<Rightarrow> None
            | Some (rs, s') \<Rightarrow> Some (Inr (sum_list rs div ucast (post_clamp samples), s')))"
    using nz by (simp add: read_oversampled_sweep split: option.splits)
  have len: "length rs = unat (post_clamp samples)"
    if "sweep hw io (replicate (unat (post_clamp samples)) channel) s = Some (rs, s')" for rs s'
    using sweep_length [OF that] by simp
  from loop whole len show ?thesis
    by (simp add: unat_sum_list unat_div unat_ucast_u8)
qed

text \<open>Two samples of channel 4 with the readings 1000 and 23 give 511.\<close>

theorem read_oversampled_reads_witness:
  "(1 :: u8) \<le> 2 \<and>
   sweep queue_hw atmega [4, 4] \<lparr>ADCSRA = 0x85, ADMUX = 0x40, ADC = 0, hidden = [1000, 23, 77]\<rparr> =
     Some ([1000, 23], \<lparr>ADCSRA = 0x85, ADMUX = 0x44, ADC = 23, hidden = [77]\<rparr>) \<and>
   read_oversampled queue_hw atmega 4 2
     \<lparr>ADCSRA = 0x85, ADMUX = 0x40, ADC = 0, hidden = [1000, 23, 77]\<rparr> =
     Some (Inr (511, \<lparr>ADCSRA = 0x85, ADMUX = 0x44, ADC = 23, hidden = [77]\<rparr>))"
proof -
  have a: "(1 :: u8) \<le> 2" by simp
  have r: "replicate 2 (4 :: u8) = [4, 4]" by (simp add: numeral_2_eq_2)
  have b: "sweep queue_hw atmega [4, 4]
     \<lparr>ADCSRA = 0x85, ADMUX = 0x40, ADC = 0, hidden = [1000, 23, 77]\<rparr> =
     Some ([1000, 23], \<lparr>ADCSRA = 0x85, ADMUX = 0x44, ADC = 23, hidden = [77]\<rparr>)"
    by (simp add: read_once_def spin.simps advance_def atmega_def queue_hw_def)
  have rep: "replicate (unat (post_clamp (2 :: u8))) (4 :: u8) = [4, 4]"
    by (simp add: post_clamp_def r)
  from read_oversampled_reads [OF a, of queue_hw atmega 4
      "\<lparr>ADCSRA = 0x85, ADMUX = 0x40, ADC = 0, hidden = [1000, 23, 77]\<rparr>"]
  have "read_oversampled queue_hw atmega 4 2
          \<lparr>ADCSRA = 0x85, ADMUX = 0x40, ADC = 0, hidden = [1000, 23, 77]\<rparr> =
        (case sweep queue_hw atmega (replicate (unat (post_clamp 2)) 4)
                \<lparr>ADCSRA = 0x85, ADMUX = 0x40, ADC = 0, hidden = [1000, 23, 77]\<rparr> of
           None \<Rightarrow> None
         | Some (rs, s') \<Rightarrow> Some (Inr (sum_list rs div ucast (post_clamp 2), s')))"
    by blast
  then have "read_oversampled queue_hw atmega 4 2
     \<lparr>ADCSRA = 0x85, ADMUX = 0x40, ADC = 0, hidden = [1000, 23, 77]\<rparr> =
     Some (Inr (511, \<lparr>ADCSRA = 0x85, ADMUX = 0x44, ADC = 23, hidden = [77]\<rparr>))"
    unfolding rep b by (simp add: post_clamp_def)
  with a b show ?thesis by simp
qed

text \<open>
  Claim C1. For a sample count from 1 to 60, when the single reads return the readings
  \<open>rs\<close>, each a 10-bit value as \<open>read_once\<close> delivers it, \<open>read_oversampled\<close>
  returns the sum of the readings divided, rounding down, by the sample count it was
  called with.
\<close>

theorem read_oversampled_average:
  assumes "1 \<le> samples" and "samples \<le> 60"
    and "sweep hw io (replicate (unat samples) channel) s = Some (rs, s')"
    and "\<forall>r\<in>set rs. r \<le> 1023"
  shows "read_oversampled hw io channel samples s =
           Some (Inr (sum_list rs div ucast samples, s')) \<and>
         unat (sum_list rs div ucast samples) = sum_list (map unat rs) div unat samples"
proof -
  from assms(1) have nz: "samples \<noteq> 0" by auto
  from assms(2) have pc: "post_clamp samples = samples"
    by (simp add: post_clamp_def word_le_nat_alt)
  have len: "length rs = unat samples"
    using sweep_length [OF assms(3)] by simp
  have res: "read_oversampled hw io channel samples s =
           Some (Inr (sum_list rs div ucast samples, s'))"
    using assms(3) nz by (simp add: read_oversampled_sweep pc)
  from assms(2) have "unat samples \<le> 60" by (simp add: word_le_nat_alt)
  with sum_list_bound [OF assms(4)] len have "sum_list (map unat rs) \<le> 1023 * 60"
    by (metis le_trans mult_le_mono2)
  then have "unat (sum_list rs) = sum_list (map unat rs)"
    by (simp add: unat_sum_list)
  then have "unat (sum_list rs div ucast samples) = sum_list (map unat rs) div unat samples"
    by (simp add: unat_div unat_ucast_u8)
  with res show ?thesis ..
qed

text \<open>The readings 100, 200 and 300 with three samples give 200.\<close>

theorem read_oversampled_average_witness:
  "(1 :: u8) \<le> 3 \<and> (3 :: u8) \<le> 60 \<and>
   sweep queue_hw atmega (replicate (unat (3 :: u8)) 0)
     \<lparr>ADCSRA = 0x85, ADMUX = 0x40, ADC = 0, hidden = [100, 200, 300]\<rparr> =
     Some ([100, 200, 300], \<lparr>ADCSRA = 0x85, ADMUX = 0x40, ADC = 300, hidden = []\<rparr>) \<and>
   (100 :: u16) \<le> 1023 \<and> (200 :: u16) \<le> 1023 \<and> (300 :: u16) \<le> 1023 \<and>
   read_oversampled queue_hw atmega 0 3
     \<lparr>ADCSRA = 0x85, ADMUX = 0x40, ADC = 0, hidden = [100, 200, 300]\<rparr> =
     Some (Inr (200, \<lparr>ADCSRA = 0x85, ADMUX = 0x40, ADC = 300, hidden = []\<rparr>))"
proof -
  have a: "(1 :: u8) \<le> 3" and b: "(3 :: u8) \<le> 60" by simp_all
  have c: "sweep queue_hw atmega (replicate (unat (3 :: u8)) 0)
     \<lparr>ADCSRA = 0x85, ADMUX = 0x40, ADC = 0, hidden = [100, 200, 300]\<rparr> =
     Some ([100, 200, 300], \<lparr>ADCSRA = 0x85, ADMUX = 0x40, ADC = 300, hidden = []\<rparr>)"
  proof -
    have "replicate 3 (0 :: u8) = [0, 0, 0]"
      by (simp add: numeral_3_eq_3)
    then have "replicate (unat (3 :: u8)) (0 :: u8) = [0, 0, 0]"
      by simp
    then show ?thesis
      by (simp add: read_once_def spin.simps advance_def atmega_def queue_hw_def)
  qed
  have d: "\<forall>r\<in>set [100, 200, 300 :: u16]. r \<le> 1023" by simp
  from read_oversampled_average [OF a b c d] a b c show ?thesis by simp
qed

text \<open>
  Claim C3. With a sample count of 64 or more, \<open>read_oversampled\<close> does what it does
  with a sample count of 60: the same result, and the same registers and hardware state
  afterwards, which are those of 60 single reads.
\<close>

theorem read_oversampled_clamp:
  assumes "64 \<le> samples"
  shows "read_oversampled hw io channel samples s = read_oversampled hw io channel 60 s \<and>
         read_oversampled hw io channel samples s =
           (case sweep hw io (replicate 60 channel) s of
              None \<Rightarrow> None
            | Some (rs, s') \<Rightarrow> Some (Inr (sum_list rs div 60, s')))"
proof -
  from assms have pc: "post_clamp samples = 60" by (simp add: post_clamp_def)
  have same: "read_oversampled hw io channel samples s = read_oversampled hw io channel 60 s"
    using assms by (simp add: read_oversampled_def)
  have "read_oversampled hw io channel samples s =
           (case sweep hw io (replicate 60 channel) s of
              None \<Rightarrow> None
            | Some (rs, s') \<Rightarrow> Some (Inr (sum_list rs div 60, s')))"
    by (simp add: read_oversampled_sweep pc split: option.splits)
  with same show ?thesis ..
qed

text \<open>A sample count of 200 on the converter that answers with the channel number.\<close>

theorem read_oversampled_clamp_witness:
  "(64 :: u8) \<le> 200 \<and>
   read_oversampled echo_hw atmega 5 200 \<lparr>ADCSRA = 0x85, ADMUX = 0x40, ADC = 0, hidden = ()\<rparr> =
   read_oversampled echo_hw atmega 5 60 \<lparr>ADCSRA = 0x85, ADMUX = 0x40, ADC = 0, hidden = ()\<rparr> \<and>
   read_oversampled echo_hw atmega 5 200 \<lparr>ADCSRA = 0x85, ADMUX = 0x40, ADC = 0, hidden = ()\<rparr> =
     Some (Inr (5, \<lparr>ADCSRA = 0x85, ADMUX = 0x45, ADC = 5, hidden = ()\<rparr>))"
proof -
  have a: "(64 :: u8) \<le> 200" by simp
  have b: "read_oversampled echo_hw atmega 5 60 \<lparr>ADCSRA = 0x85, ADMUX = 0x40, ADC = 0, hidden = ()\<rparr> =
     Some (Inr (5, \<lparr>ADCSRA = 0x85, ADMUX = 0x45, ADC = 5, hidden = ()\<rparr>))"
    by (simp add: run_simps echo_hw_def cong: option.case_cong_weak)
  from read_oversampled_clamp [OF a, of echo_hw atmega 5
      "\<lparr>ADCSRA = 0x85, ADMUX = 0x40, ADC = 0, hidden = ()\<rparr>", THEN conjunct1]
  have c: "read_oversampled echo_hw atmega 5 200 \<lparr>ADCSRA = 0x85, ADMUX = 0x40, ADC = 0, hidden = ()\<rparr> =
   read_oversampled echo_hw atmega 5 60 \<lparr>ADCSRA = 0x85, ADMUX = 0x40, ADC = 0, hidden = ()\<rparr>" .
  from a c b show ?thesis by (simp only: simp_thms)
qed

text \<open>
  Claim C4 does not hold of the code. With a sample count of 0 the loop reads nothing
  and the final division divides by zero, on every converter and from every state.
\<close>

theorem read_oversampled_zero_samples:
  "read_oversampled hw io channel 0 s = Some (Inl DivisionByZero)"
  by (simp add: read_oversampled_def sample_loop.simps)

text \<open>
  Claim C7. For a sample count of at least 1 and readings of at most 1023, the sum of
  the first \<open>k\<close> readings fits in 16 bits for every \<open>k\<close>, so the accumulator never
  wraps around, and the result is the sum divided by the count after the clamp and is
  at most 1023.
\<close>

theorem read_oversampled_no_overflow:
  assumes "1 \<le> samples"
    and "sweep hw io (replicate (unat (post_clamp samples)) channel) s = Some (rs, s')"
    and "\<forall>r\<in>set rs. r \<le> 1023"
  shows "(\<forall>k. sum_list (map unat (take k rs)) \<le> 65535 \<and>
              unat (sum_list (take k rs)) = sum_list (map unat (take k rs))) \<and>
         read_oversampled hw io channel samples s =
           Some (Inr (sum_list rs div ucast (post_clamp samples), s')) \<and>
         unat (sum_list rs div ucast (post_clamp samples)) =
           sum_list (map unat rs) div unat (post_clamp samples) \<and>
         sum_list rs div ucast (post_clamp samples) \<le> 1023"
proof -
  from assms(1) have "samples \<noteq> 0" by auto
  then have nz: "post_clamp samples \<noteq> 0" by (simp add: post_clamp_eq_0)
  then have pos: "0 < unat (post_clamp samples)" by (simp add: unat_gt_0)
  have len: "length rs = unat (post_clamp samples)"
    using sweep_length [OF assms(2)] by simp
  with post_clamp_le [of samples] have len63: "length rs \<le> 63" by simp
  have part: "sum_list (map unat (take k rs)) \<le> 65535 \<and>
              unat (sum_list (take k rs)) = sum_list (map unat (take k rs))" for k
    using take_bound [OF assms(3) len63, of k] by (simp add: unat_sum_list)
  from part [of "length rs"] have tot: "unat (sum_list rs) = sum_list (map unat rs)" by simp
  have res: "read_oversampled hw io channel samples s =
           Some (Inr (sum_list rs div ucast (post_clamp samples), s'))"
    using assms(2) nz by (simp add: read_oversampled_sweep)
  have val: "unat (sum_list rs div ucast (post_clamp samples)) =
           sum_list (map unat rs) div unat (post_clamp samples)"
    by (simp add: unat_div unat_ucast_u8 tot)
  have "sum_list (map unat rs) \<le> 1023 * unat (post_clamp samples)"
    using sum_list_bound [OF assms(3)] len by simp
  then have "sum_list (map unat rs) div unat (post_clamp samples) \<le> 1023"
    using pos by (metis div_le_mono nonzero_mult_div_cancel_right less_not_refl)
  with val have bound: "sum_list rs div ucast (post_clamp samples) \<le> 1023"
    by (simp add: word_le_nat_alt)
  from part res val bound show ?thesis by blast
qed

text \<open>Two samples with the readings 1023 and 1022 give 1022.\<close>

theorem read_oversampled_no_overflow_witness:
  "(1 :: u8) \<le> 2 \<and>
   sweep queue_hw atmega (replicate (unat (post_clamp 2)) 1)
     \<lparr>ADCSRA = 0x85, ADMUX = 0x40, ADC = 0, hidden = [1023, 1022, 5]\<rparr> =
     Some ([1023, 1022], \<lparr>ADCSRA = 0x85, ADMUX = 0x41, ADC = 1022, hidden = [5]\<rparr>) \<and>
   read_oversampled queue_hw atmega 1 2
     \<lparr>ADCSRA = 0x85, ADMUX = 0x40, ADC = 0, hidden = [1023, 1022, 5]\<rparr> =
     Some (Inr (1022, \<lparr>ADCSRA = 0x85, ADMUX = 0x41, ADC = 1022, hidden = [5]\<rparr>)) \<and>
   unat (sum_list [1023, 1022 :: u16]) = 2045"
proof -
  have a: "(1 :: u8) \<le> 2" by simp
  have r: "replicate 2 (1 :: u8) = [1, 1]" by (simp add: numeral_2_eq_2)
  have b: "sweep queue_hw atmega (replicate (unat (post_clamp 2)) 1)
     \<lparr>ADCSRA = 0x85, ADMUX = 0x40, ADC = 0, hidden = [1023, 1022, 5]\<rparr> =
     Some ([1023, 1022], \<lparr>ADCSRA = 0x85, ADMUX = 0x41, ADC = 1022, hidden = [5]\<rparr>)"
    by (simp add: post_clamp_def r read_once_def spin.simps advance_def atmega_def queue_hw_def)
  have c: "\<forall>r\<in>set [1023, 1022 :: u16]. r \<le> 1023" by simp
  from read_oversampled_no_overflow [OF a b c]
  have "read_oversampled queue_hw atmega 1 2
          \<lparr>ADCSRA = 0x85, ADMUX = 0x40, ADC = 0, hidden = [1023, 1022, 5]\<rparr> =
        Some (Inr (sum_list [1023, 1022] div ucast (post_clamp 2),
                   \<lparr>ADCSRA = 0x85, ADMUX = 0x41, ADC = 1022, hidden = [5]\<rparr>))"
    by blast
  then have d: "read_oversampled queue_hw atmega 1 2
     \<lparr>ADCSRA = 0x85, ADMUX = 0x40, ADC = 0, hidden = [1023, 1022, 5]\<rparr> =
     Some (Inr (1022, \<lparr>ADCSRA = 0x85, ADMUX = 0x41, ADC = 1022, hidden = [5]\<rparr>))"
    by (simp add: post_clamp_def)
  have e: "unat (sum_list [1023, 1022 :: u16]) = 2045" by simp
  from a b d e show ?thesis by (simp only: simp_thms)
qed

text \<open>
  Claim C10. A sample count from 61 to 63 is not clamped: \<open>read_oversampled\<close> makes
  that many single reads and divides their 16-bit sum by that count. With readings of
  at most 1023 the sum is at most 64449 and does not wrap around.
\<close>

theorem read_oversampled_unclamped:
  assumes "61 \<le> samples" and "samples \<le> 63"
  shows "post_clamp samples = samples \<and>
         read_oversampled hw io channel samples s =
           (case sweep hw io (replicate (unat samples) channel) s of
              None \<Rightarrow> None
            | Some (rs, s') \<Rightarrow> Some (Inr (sum_list rs div ucast samples, s'))) \<and>
         (\<forall>rs s'. sweep hw io (replicate (unat samples) channel) s = Some (rs, s') \<and>
                  (\<forall>r\<in>set rs. r \<le> 1023) \<longrightarrow>
            length rs = unat samples \<and>
            sum_list (map unat rs) \<le> 64449 \<and>
            unat (sum_list rs) = sum_list (map unat rs))"
proof -
  from assms(2) have pc: "post_clamp samples = samples"
    by (simp add: post_clamp_def word_le_nat_alt)
  from assms(1) have nz: "samples \<noteq> 0" by auto
  have whole: "read_oversampled hw io channel samples s =
           (case sweep hw io (replicate (unat samples) channel) s of
              None \<Rightarrow> None
            | Some (rs, s') \<Rightarrow> Some (Inr (sum_list rs div ucast samples, s')))"
    using nz by (simp add: read_oversampled_sweep pc split: option.splits)
  have sums: "length rs = unat samples \<and> sum_list (map unat rs) \<le> 64449 \<and>
              unat (sum_list rs) = sum_list (map unat rs)"
    if sw: "sweep hw io (replicate (unat samples) channel) s = Some (rs, s')"
      and ten: "\<forall>r\<in>set rs. r \<le> 1023" for rs s'
  proof -
    have len: "length rs = unat samples" using sweep_length [OF sw] by simp
    from assms(2) have "unat samples \<le> 63" by (simp add: word_le_nat_alt)
    with len have "length rs \<le> 63" by simp
    from take_bound [OF ten this, of "length rs"] len show ?thesis
      by (simp add: unat_sum_list)
  qed
  from pc whole sums show ?thesis by blast
qed

text \<open>Sixty-one samples of channel 7 on the converter that answers with the channel number.\<close>

theorem read_oversampled_unclamped_witness:
  "(61 :: u8) \<le> 61 \<and> (61 :: u8) \<le> 63 \<and> post_clamp 61 = 61 \<and>
   read_oversampled echo_hw atmega 7 61 \<lparr>ADCSRA = 0x85, ADMUX = 0x40, ADC = 0, hidden = ()\<rparr> =
     Some (Inr (7, \<lparr>ADCSRA = 0x85, ADMUX = 0x47, ADC = 7, hidden = ()\<rparr>)) \<and>
   read_oversampled echo_hw atmega 7 61 \<lparr>ADCSRA = 0x85, ADMUX = 0x40, ADC = 0, hidden = ()\<rparr> =
     (case sweep echo_hw atmega (replicate (unat (61 :: u8)) 7)
             \<lparr>ADCSRA = 0x85, ADMUX = 0x40, ADC = 0, hidden = ()\<rparr> of
        None \<Rightarrow> None
      | Some (rs, s') \<Rightarrow> Some (Inr (sum_list rs div ucast (61 :: u8), s')))"
proof -
  have a: "(61 :: u8) \<le> 61" and b: "(61 :: u8) \<le> 63" by simp_all
  have c: "read_oversampled echo_hw atmega 7 61
             \<lparr>ADCSRA = 0x85, ADMUX = 0x40, ADC = 0, hidden = ()\<rparr> =
           Some (Inr (7, \<lparr>ADCSRA = 0x85, ADMUX = 0x47, ADC = 7, hidden = ()\<rparr>))"
    by (simp add: run_simps echo_hw_def cong: option.case_cong_weak)
  from read_oversampled_unclamped [OF a b, of echo_hw atmega 7
      "\<lparr>ADCSRA = 0x85, ADMUX = 0x40, ADC = 0, hidden = ()\<rparr>"]
  have d: "post_clamp (61 :: u8) = 61"
    and e: "read_oversampled echo_hw atmega 7 61
              \<lparr>ADCSRA = 0x85, ADMUX = 0x40, ADC = 0, hidden = ()\<rparr> =
            (case sweep echo_hw atmega (replicate (unat (61 :: u8)) 7)
                    \<lparr>ADCSRA = 0x85, ADMUX = 0x40, ADC = 0, hidden = ()\<rparr> of
               None \<Rightarrow> None
             | Some (rs, s') \<Rightarrow> Some (Inr (sum_list rs div ucast (61 :: u8), s')))"
    by blast+
  from a b d c e show ?thesis by (intro conjI)
qed

subsection \<open>Printing the converter\<close>

text \<open>
  Claim C9. In whatever order the operands of the chain are evaluated, there is one
  conversion for each of the channels 0 to 7 and no other. When one of them never ends,
  neither does the printing. Otherwise \<open>print_adc\<close> appends to the stream the value of
  \<open>ADCSRA\<close>, the value of \<open>ADMUX\<close> and then, for the channels 0 to 7 in this order,
  one labelled line with the reading of the conversion of that channel; the two
  register values are those at the moment the operand is evaluated, and the registers
  afterwards are those of the eight conversions. On the converter that answers with
  the channel number, the line of channel \<open>k\<close> shows \<open>k\<close>.
\<close>

theorem print_adc_output:
  assumes "valid_order order"
  shows "mset (conversions order) = mset [0, 1, 2, 3, 4, 5, 6, 7] \<and>
         (sweep hw io (conversions order) s = None \<longrightarrow>
            print_adc hw io order serpt s = None) \<and>
         (\<forall>rs s'. sweep hw io (conversions order) s = Some (rs, s') \<longrightarrow>
            (\<exists>ta tm r0 r1 r2 r3 r4 r5 r6 r7.
               registers_at hw io order 0 s = Some ta \<and>
               registers_at hw io order 1 s = Some tm \<and>
               map_of (zip (conversions order) rs) 0 = Some r0 \<and>
               map_of (zip (conversions order) rs) 1 = Some r1 \<and>
               map_of (zip (conversions order) rs) 2 = Some r2 \<and>
               map_of (zip (conversions order) rs) 3 = Some r3 \<and>
               map_of (zip (conversions order) rs) 4 = Some r4 \<and>
               map_of (zip (conversions order) rs) 5 = Some r5 \<and>
               map_of (zip (conversions order) rs) 6 = Some r6 \<and>
               map_of (zip (conversions order) rs) 7 = Some r7 \<and>
               print_adc hw io order serpt s =
                 Some (serpt @
                       [PMS ''ADCSRA: '', U8 (ADCSRA ta), Endl,
                        PMS ''ADMUX: '', U8 (ADMUX tm), Endl,
                        PMS ''ADC0 = '', U16 r0, Endl,
                        PMS ''ADC1 = '', U16 r1, Endl,
                        PMS ''ADC2 = '', U16 r2, Endl,
                        PMS ''ADC3 = '', U16 r3, Endl,
                        PMS ''ADC4 = '', U16 r4, Endl,
                        PMS ''ADC5 = '', U16 r5, Endl,
                        PMS ''ADC6 = '', U16 r6, Endl,
                        PMS ''ADC7 = '', U16 r7, Endl], s'))) \<and>
         (\<exists>a m s'. print_adc echo_hw atmega order serpt s =
            Some (serpt @
                  [PMS ''ADCSRA: '', U8 a, Endl,
                   PMS ''ADMUX: '', U8 m, Endl,
                   PMS ''ADC0 = '', U16 0, Endl,
                   PMS ''ADC1 = '', U16 1, Endl,
                   PMS ''ADC2 = '', U16 2, Endl,
                   PMS ''ADC3 = '', U16 3, Endl,
                   PMS ''ADC4 = '', U16 4, Endl,
                   PMS ''ADC5 = '', U16 5, Endl,
                   PMS ''ADC6 = '', U16 6, Endl,
                   PMS ''ADC7 = '', U16 7, Endl], s'))"
proof (intro conjI impI allI)
  show all: "mset (conversions order) = mset [0, 1, 2, 3, 4, 5, 6, 7]"
    by (rule conversions_all [OF assms])
  let ?cs = "conversions order"
  let ?f = "\<lambda>c :: u8. ucast (c AND 0x07) :: u16"
  from sweep_echo [of ?cs s] obtain s' where
    sw: "sweep echo_hw atmega ?cs s = Some (map ?f ?cs, s')" ..
  from mset_eq_setD [OF all] have mem: "set ?cs = {0, 1, 2, 3, 4, 5, 6, 7}" by simp
  then have rd: "map_of (zip ?cs (map ?f ?cs)) c = Some (?f c)"
    if "c \<in> {0, 1, 2, 3, 4, 5, 6, 7}" for c
    using that map_of_readings [of c ?cs ?f] by simp
  from print_adc_lines [OF assms sw, of serpt] rd
  show "\<exists>a m s'. print_adc echo_hw atmega order serpt s =
            Some (serpt @
                  [PMS ''ADCSRA: '', U8 a, Endl,
                   PMS ''ADMUX: '', U8 m, Endl,
                   PMS ''ADC0 = '', U16 0, Endl,
                   PMS ''ADC1 = '', U16 1, Endl,
                   PMS ''ADC2 = '', U16 2, Endl,
                   PMS ''ADC3 = '', U16 3, Endl,
                   PMS ''ADC4 = '', U16 4, Endl,
                   PMS ''ADC5 = '', U16 5, Endl,
                   PMS ''ADC6 = '', U16 6, Endl,
                   PMS ''ADC7 = '', U16 7, Endl], s')"
    by auto
next
  assume "sweep hw io (conversions order) s = None"
  then show "print_adc hw io order serpt s = None" by (rule print_adc_none)
next
  fix rs s'
  assume "sweep hw io (conversions order) s = Some (rs, s')"
  from print_adc_lines [OF assms this]
  show "\<exists>ta tm r0 r1 r2 r3 r4 r5 r6 r7.
               registers_at hw io order 0 s = Some ta \<and>
               registers_at hw io order 1 s = Some tm \<and>
               map_of (zip (conversions order) rs) 0 = Some r0 \<and>
               map_of (zip (conversions order) rs) 1 = Some r1 \<and>
               map_of (zip (conversions order) rs) 2 = Some r2 \<and>
               map_of (zip (conversions order) rs) 3 = Some r3 \<and>
               map_of (zip (conversions order) rs) 4 = Some r4 \<and>
               map_of (zip (conversions order) rs) 5 = Some r5 \<and>
               map_of (zip (conversions order) rs) 6 = Some r6 \<and>
               map_of (zip (conversions order) rs) 7 = Some r7 \<and>
               print_adc hw io order serpt s =
                 Some (serpt @
                       [PMS ''ADCSRA: '', U8 (ADCSRA ta), Endl,
                        PMS ''ADMUX: '', U8 (ADMUX tm), Endl,
                        PMS ''ADC0 = '', U16 r0, Endl,
                        PMS ''ADC1 = '', U16 r1, Endl,
                        PMS ''ADC2 = '', U16 r2, Endl,
                        PMS ''ADC3 = '', U16 r3, Endl,
                        PMS ''ADC4 = '', U16 r4, Endl,
                        PMS ''ADC5 = '', U16 r5, Endl,
                        PMS ''ADC6 = '', U16 r6, Endl,
                        PMS ''ADC7 = '', U16 r7, Endl], s')" .
qed

text \<open>
  The converter that answers 10, 20, ..., 80 to the conversions as they come, with the
  operands evaluated from right to left and from left to right.
\<close>

theorem print_adc_output_witness:
  "valid_order [9, 8, 7, 6, 5, 4, 3, 2, 1, 0] \<and>
   sweep queue_hw atmega (conversions [9, 8, 7, 6, 5, 4, 3, 2, 1, 0])
     \<lparr>ADCSRA = 0xC5, ADMUX = 0x65, ADC = 0, hidden = [10, 20, 30, 40, 50, 60, 70, 80]\<rparr> =
     Some ([10, 20, 30, 40, 50, 60, 70, 80],
           \<lparr>ADCSRA = 0x85, ADMUX = 0x60, ADC = 80, hidden = []\<rparr>) \<and>
   print_adc queue_hw atmega [9, 8, 7, 6, 5, 4, 3, 2, 1, 0] []
     \<lparr>ADCSRA = 0xC5, ADMUX = 0x65, ADC = 0, hidden = [10, 20, 30, 40, 50, 60, 70, 80]\<rparr> =
     Some ([PMS ''ADCSRA: '', U8 0x85, Endl,
            PMS ''ADMUX: '', U8 0x60, Endl,
            PMS ''ADC0 = '', U16 80, Endl,
            PMS ''ADC1 = '', U16 70, Endl,
            PMS ''ADC2 = '', U16 60, Endl,
            PMS ''ADC3 = '', U16 50, Endl,
            PMS ''ADC4 = '', U16 40, Endl,
            PMS ''ADC5 = '', U16 30, Endl,
            PMS ''ADC6 = '', U16 20, Endl,
            PMS ''ADC7 = '', U16 10, Endl],
           \<lparr>ADCSRA = 0x85, ADMUX = 0x60, ADC = 80, hidden = []\<rparr>) \<and>
   print_adc queue_hw atmega [0, 1, 2, 3, 4, 5, 6, 7, 8, 9] []
     \<lparr>ADCSRA = 0xC5, ADMUX = 0x65, ADC = 0, hidden = [10, 20, 30, 40, 50, 60, 70, 80]\<rparr> =
     Some ([PMS ''ADCSRA: '', U8 0xC5, Endl,
            PMS ''ADMUX: '', U8 0x65, Endl,
            PMS ''ADC0 = '', U16 10, Endl,
            PMS ''ADC1 = '', U16 20, Endl,
            PMS ''ADC2 = '', U16 30, Endl,
            PMS ''ADC3 = '', U16 40, Endl,
            PMS ''ADC4 = '', U16 50, Endl,
            PMS ''ADC5 = '', U16 60, Endl,
            PMS ''ADC6 = '', U16 70, Endl,
            PMS ''ADC7 = '', U16 80, Endl],
           \<lparr>ADCSRA = 0x85, ADMUX = 0x67, ADC = 80, hidden = []\<rparr>)"
proof -
  let ?order = "[9, 8, 7, 6, 5, 4, 3, 2, 1, 0 :: nat]"
  let ?s = "\<lparr>ADCSRA = 0xC5, ADMUX = 0x65, ADC = 0,
              hidden = [10, 20, 30, 40, 50, 60, 70, 80 :: u16]\<rparr>"
  let ?t = "\<lparr>ADCSRA = 0x85 :: u8, ADMUX = 0x60 :: u8, ADC = 80 :: u16, hidden = [] :: u16 list\<rparr>"
  have a: "valid_order ?order"
    by (simp add: valid_order_def length_chain upt10)
  have cs: "conversions ?order = [7, 6, 5, 4, 3, 2, 1, 0]"
    by (simp add: conversions_def chain_def)
  have sw: "sweep queue_hw atmega [7, 6, 5, 4, 3, 2, 1, 0] ?s =
             Some ([10, 20, 30, 40, 50, 60, 70, 80], ?t)"
    by (simp add: read_once_def spin.simps advance_def atmega_def queue_hw_def Let_def
        cong: option.case_cong_weak)
  have b: "sweep queue_hw atmega (conversions ?order) ?s =
             Some ([10, 20, 30, 40, 50, 60, 70, 80], ?t)"
    unfolding cs by (rule sw)
  have "conversions (takeWhile (\<lambda>j. j \<noteq> 0) ?order) = [7, 6, 5, 4, 3, 2, 1, 0]"
    by (simp add: conversions_def chain_def)
  then have ra: "registers_at queue_hw atmega ?order 0 ?s = Some ?t"
    by (simp only: registers_at_def sw) simp
  have "conversions (takeWhile (\<lambda>j. j \<noteq> 1) ?order) = [7, 6, 5, 4, 3, 2, 1, 0]"
    by (simp add: conversions_def chain_def)
  then have rm: "registers_at queue_hw atmega ?order 1 ?s = Some ?t"
    by (simp only: registers_at_def sw) simp
  from print_adc_output [OF a, of queue_hw atmega ?s "[]"] b
  obtain ta tm r0 r1 r2 r3 r4 r5 r6 r7 where
    "registers_at queue_hw atmega ?order 0 ?s = Some ta"
    "registers_at queue_hw atmega ?order 1 ?s = Some tm"
    "map_of (zip (conversions ?order) [10, 20, 30, 40, 50, 60, 70, 80]) 0 = Some r0"
    "map_of (zip (conversions ?order) [10, 20, 30, 40, 50, 60, 70, 80]) 1 = Some r1"
    "map_of (zip (conversions ?order) [10, 20, 30, 40, 50, 60, 70, 80]) 2 = Some r2"
    "map_of (zip (conversions ?order) [10, 20, 30, 40, 50, 60, 70, 80]) 3 = Some r3"
    "map_of (zip (conversions ?order) [10, 20, 30, 40, 50, 60, 70, 80]) 4 = Some r4"
    "map_of (zip (conversions ?order) [10, 20, 30, 40, 50, 60, 70, 80]) 5 = Some r5"
    "map_of (zip (conversions ?order) [10, 20, 30, 40, 50, 60, 70, 80]) 6 = Some r6"
    "map_of (zip (conversions ?order) [10, 20, 30, 40, 50, 60, 70, 80]) 7 = Some r7"
    and out: "print_adc queue_hw atmega ?order [] ?s =
       Some ([] @
             [PMS ''ADCSRA: '', U8 (ADCSRA ta), Endl,
              PMS ''ADMUX: '', U8 (ADMUX tm), Endl,
              PMS ''ADC0 = '', U16 r0, Endl,
              PMS ''ADC1 = '', U16 r1, Endl,
              PMS ''ADC2 = '', U16 r2, Endl,
              PMS ''ADC3 = '', U16 r3, Endl,
              PMS ''ADC4 = '', U16 r4, Endl,
              PMS ''ADC5 = '', U16 r5, Endl,
              PMS ''ADC6 = '', U16 r6, Endl,
              PMS ''ADC7 = '', U16 r7, Endl], ?t)"
    by blast
  then have vals: "ta = ?t" "tm = ?t" "r0 = 80" "r1 = 70" "r2 = 60" "r3 = 50"
      "r4 = 40" "r5 = 30" "r6 = 20" "r7 = 10"
    unfolding ra rm cs by simp_all
  have c: "print_adc queue_hw atmega ?order [] ?s =
     Some ([PMS ''ADCSRA: '', U8 0x85, Endl,
            PMS ''ADMUX: '', U8 0x60, Endl,
            PMS ''ADC0 = '', U16 80, Endl,
            PMS ''ADC1 = '', U16 70, Endl,
            PMS ''ADC2 = '', U16 60, Endl,
            PMS ''ADC3 = '', U16 50, Endl,
            PMS ''ADC4 = '', U16 40, Endl,
            PMS ''ADC5 = '', U16 30, Endl,
            PMS ''ADC6 = '', U16 20, Endl,
            PMS ''ADC7 = '', U16 10, Endl], ?t)"
    using out by (simp add: vals)
  have d: "print_adc queue_hw atmega [0, 1, 2, 3, 4, 5, 6, 7, 8, 9] [] ?s =
     Some ([PMS ''ADCSRA: '', U8 0xC5, Endl,
            PMS ''ADMUX: '', U8 0x65, Endl,
            PMS ''ADC0 = '', U16 10, Endl,
            PMS ''ADC1 = '', U16 20, Endl,
            PMS ''ADC2 = '', U16 30, Endl,
            PMS ''ADC3 = '', U16 40, Endl,
            PMS ''ADC4 = '', U16 50, Endl,
            PMS ''ADC5 = '', U16 60, Endl,
            PMS ''ADC6 = '', U16 70, Endl,
            PMS ''ADC7 = '', U16 80, Endl],
           \<lparr>ADCSRA = 0x85, ADMUX = 0x67, ADC = 80, hidden = []\<rparr>)"
  proof -
    have "eval_operands queue_hw atmega [0, 1, 2, 3, 4, 5, 6, 7, 8, 9] ?s =
        Some ([(0, U8 0xC5), (1, U8 0x65), (2, U16 10), (3, U16 20), (4, U16 30), (5, U16 40),
               (6, U16 50), (7, U16 60), (8, U16 70), (9, U16 80)],
              \<lparr>ADCSRA = 0x85, ADMUX = 0x67, ADC = 80, hidden = []\<rparr>)"
      by (simp add: chain_def read_once_def spin.simps advance_def atmega_def queue_hw_def
          Let_def cong: option.case_cong_weak)
    then show ?thesis
      by (simp add: print_adc_def write_chain_def length_chain upt10) (simp add: chain_def)
  qed
  from a b c d show ?thesis by (intro conjI)
qed

end
